theory Spec2Isabelle
  imports
    Main
    "HOL-Library.AList"
    "HOL-Library.Char_ord"
    "HOL-Library.List_Lexorder"
    "HOL-Library.Product_Lexorder"
    "HOL-Library.Sublist"
begin

section \<open>Strings and dictionaries\<close>

text \<open>
  A Python \<^verbatim>\<open>str\<close> is modelled as a \<^typ>\<open>string\<close> whose characters are the code points
  below 256. On these, \<^verbatim>\<open>str.isspace\<close> holds for exactly the twelve code points below,
  and \<^verbatim>\<open>str.lower\<close> adds 32 to A..Z and to the Latin-1 capitals 0xC0..0xDE other
  than 0xD7. \<^verbatim>\<open>str.strip()\<close> removes leading and trailing whitespace.
\<close>

definition isspace :: "char \<Rightarrow> bool" where
  "isspace c = (c \<in> set [CHR 0x09, CHR 0x0A, CHR 0x0B, CHR 0x0C, CHR 0x0D,
                          CHR 0x1C, CHR 0x1D, CHR 0x1E, CHR 0x1F, CHR 0x20,
                          CHR 0x85, CHR 0xA0])"

definition strip :: "string \<Rightarrow> string" where
  "strip s = rev (dropWhile isspace (rev (dropWhile isspace s)))"

definition lower_char :: "char \<Rightarrow> char" where
  "lower_char c = (let n = (of_char c :: nat) in
     if (65 \<le> n \<and> n \<le> 90) \<or> (192 \<le> n \<and> n \<le> 222 \<and> n \<noteq> 215)
     then char_of (n + 32) else c)"

definition lower :: "string \<Rightarrow> string" where
  "lower s = map lower_char s"

text \<open>
  A Python \<^verbatim>\<open>dict\<close> is an association list in insertion order with unique keys:
  \<^verbatim>\<open>d[k] = v\<close> is \<^const>\<open>AList.update\<close> (overwrite in place, or append a new key),
  \<^verbatim>\<open>d.get(k, dflt)\<close> is \<open>dict_get\<close>, \<^verbatim>\<open>k in d\<close> is membership in the keys.
\<close>

definition dict_get :: "('k \<times> 'v) list \<Rightarrow> 'k \<Rightarrow> 'v \<Rightarrow> 'v" where
  "dict_get d k dflt = (case map_of d k of None \<Rightarrow> dflt | Some v \<Rightarrow> v)"

definition dict_keys :: "('k \<times> 'v) list \<Rightarrow> 'k set" where
  "dict_keys d = fst ` set d"


section \<open>The query engine (data_access.py)\<close>

text \<open>
  \<^verbatim>\<open>songs_to_artists\<close>: serialized song key to the list of artist names on the song.
\<close>

type_synonym song_index = "(string \<times> string list) list"

record connection =
  count :: int
  degree :: int

text \<open>
  The inner loop shared by \<^verbatim>\<open>_get_direct_connections\<close> and
  \<^verbatim>\<open>_get_direct_collaborators_raw\<close>:
  \<^verbatim>\<open>for other_artist in artists: if other_artist != artist_name:
      connections[other_artist] = connections.get(other_artist, 0) + 1\<close>
\<close>

definition count_others :: "string \<Rightarrow> string list \<Rightarrow> (string \<times> int) list \<Rightarrow> (string \<times> int) list" where
  "count_others artist_name artists connections =
     fold (\<lambda>other_artist c.
             if other_artist \<noteq> artist_name
             then AList.update other_artist (dict_get c other_artist 0 + 1) c
             else c)
          artists connections"

definition get_direct_collaborators_raw :: "song_index \<Rightarrow> string \<Rightarrow> (string \<times> int) list" where
  "get_direct_collaborators_raw songs_to_artists artist_name =
     (let artist_name = strip artist_name in
      fold (\<lambda>(song, artists) connections.
              if artist_name \<in> set artists
              then count_others artist_name artists connections
              else connections)
           songs_to_artists [])"

definition get_direct_connections :: "song_index \<Rightarrow> string \<Rightarrow> (string \<times> connection) list" where
  "get_direct_connections songs_to_artists artist_name =
     (let artist_name = strip artist_name;
          connections =
            fold (\<lambda>(song, artists) connections.
                    if artist_name \<in> set artists
                    then count_others artist_name artists connections
                    else connections)
                 songs_to_artists []
      in fold (\<lambda>(collaborator, cnt) result.
                 AList.update collaborator \<lparr>count = cnt, degree = 1\<rparr> result)
              connections [])"

text \<open>
  One iteration of the \<^verbatim>\<open>for collab, count in direct_collabs.items()\<close> loop of the
  breadth-first search, on the state (visited, queue, connections).
\<close>

type_synonym bfs_state = "string set \<times> (string \<times> int) list \<times> (string \<times> connection) list"

definition bfs_visit :: "int \<Rightarrow> string \<times> int \<Rightarrow> bfs_state \<Rightarrow> bfs_state" where
  "bfs_visit current_degree = (\<lambda>(collab, cnt) (visited, queue, connections).
     if collab \<notin> visited then
       if collab \<notin> dict_keys connections then
         (insert collab visited,
          queue @ [(collab, current_degree + 1)],
          AList.update collab \<lparr>count = cnt, degree = current_degree + 1\<rparr> connections)
       else (visited, queue, connections)
     else (visited, queue, connections))"

definition artist_names :: "song_index \<Rightarrow> string set" where
  "artist_names songs_to_artists = (\<Union>(song, artists) \<in> set songs_to_artists. set artists)"

function bfs_loop ::
  "song_index \<Rightarrow> int \<Rightarrow> string set \<Rightarrow> (string \<times> int) list \<Rightarrow> (string \<times> connection) list
     \<Rightarrow> (string \<times> connection) list" where
  "bfs_loop songs_to_artists max_degree visited [] connections = connections"
| "bfs_loop songs_to_artists max_degree visited ((current_artist, current_degree) # queue) connections =
     (if current_degree \<ge> max_degree
      then bfs_loop songs_to_artists max_degree visited queue connections
      else case fold (bfs_visit current_degree)
                     (get_direct_collaborators_raw songs_to_artists current_artist)
                     (visited, queue, connections) of
             (visited', queue', connections') \<Rightarrow>
               bfs_loop songs_to_artists max_degree visited' queue' connections')"
  by pat_completeness auto


definition get_connections_bfs :: "song_index \<Rightarrow> string \<Rightarrow> int \<Rightarrow> (string \<times> connection) list" where
  "get_connections_bfs songs_to_artists artist_name max_degree =
     (let artist_name = strip artist_name
      in bfs_loop songs_to_artists max_degree {artist_name} [(artist_name, 0)] [])"

definition get_artist_connections :: "song_index \<Rightarrow> string \<Rightarrow> int \<Rightarrow> (string \<times> connection) list" where
  "get_artist_connections songs_to_artists artist_name dg =
     (if dg = 1 then get_direct_connections songs_to_artists artist_name
      else get_connections_bfs songs_to_artists artist_name dg)"

definition artist_exists :: "song_index \<Rightarrow> string \<Rightarrow> bool" where
  "artist_exists songs_to_artists artist_name =
     list_ex (\<lambda>artists. artist_name \<in> set artists) (map snd songs_to_artists)"


text \<open>
  \<^verbatim>\<open>get_artist_connections_graph\<close>. The Python sets \<^verbatim>\<open>all_artists\<close> and
  \<^verbatim>\<open>processed_pairs\<close> are only added to and tested for membership; \<^verbatim>\<open>all_artists\<close>
  is also iterated, so it is kept as a duplicate-free list (in insertion order, where
  CPython's iteration order is unspecified). The dictionary keys \<^verbatim>\<open>id\<close>,
  \<^verbatim>\<open>name\<close>, \<^verbatim>\<open>degree\<close> of a node and \<^verbatim>\<open>name\<close> of an edge are the fields
  \<open>node_id\<close>, \<open>node_name\<close>, \<open>node_degree\<close> and \<open>edge_name\<close>.
\<close>

definition set_add :: "'a \<Rightarrow> 'a list \<Rightarrow> 'a list" where
  "set_add x s = (if x \<in> set s then s else s @ [x])"

record graph_node =
  node_id :: string
  node_name :: string
  node_degree :: int

record graph_edge =
  source :: string
  target :: string
  weight :: int
  edge_name :: string

record graph_data =
  nodes :: "graph_node list"
  edges :: "graph_edge list"

type_synonym graph_state = "string set \<times> string list \<times> (string \<times> int) list"

definition graph_visit :: "int \<Rightarrow> string \<Rightarrow> graph_state \<Rightarrow> graph_state" where
  "graph_visit current_degree collaborator = (\<lambda>(visited, all_artists, queue).
     if collaborator \<notin> visited then
       (insert collaborator visited,
        set_add collaborator all_artists,
        queue @ [(collaborator, current_degree + 1)])
     else (visited, all_artists, queue))"

function graph_loop ::
  "song_index \<Rightarrow> int \<Rightarrow> string set \<Rightarrow> string list \<Rightarrow> (string \<times> int) list \<Rightarrow> string list" where
  "graph_loop songs_to_artists dg visited all_artists [] = all_artists"
| "graph_loop songs_to_artists dg visited all_artists ((current_artist, current_degree) # queue) =
     (if current_degree < dg
      then case fold (graph_visit current_degree)
                     (map fst (get_direct_collaborators_raw songs_to_artists current_artist))
                     (visited, all_artists, queue) of
             (visited', all_artists', queue') \<Rightarrow>
               graph_loop songs_to_artists dg visited' all_artists' queue'
      else graph_loop songs_to_artists dg visited all_artists queue)"
  by pat_completeness auto

definition edge_visit ::
  "string list \<Rightarrow> string \<Rightarrow> string \<times> int \<Rightarrow> (string \<times> string) set \<times> graph_edge list
     \<Rightarrow> (string \<times> string) set \<times> graph_edge list" where
  "edge_visit all_artists artist = (\<lambda>(collaborator, cnt) (processed_pairs, edges).
     if collaborator \<in> set all_artists then
       let pair = (if collaborator < artist then (collaborator, artist) else (artist, collaborator))
       in if pair \<notin> processed_pairs
          then (insert pair processed_pairs,
                edges @ [\<lparr>source = fst pair, target = snd pair, weight = cnt,
                           edge_name = fst pair @ '' - '' @ snd pair\<rparr>])
          else (processed_pairs, edges)
     else (processed_pairs, edges))"

definition get_artist_connections_graph :: "song_index \<Rightarrow> string \<Rightarrow> int \<Rightarrow> graph_data" where
  "get_artist_connections_graph songs_to_artists artist_name dg =
     (let artist_name = strip artist_name;
          all_artists = graph_loop songs_to_artists dg {artist_name} [artist_name] [(artist_name, 0)];
          nodes = map (\<lambda>artist.
                    \<lparr>node_id = artist, node_name = artist,
                     node_degree = int (length (get_direct_collaborators_raw songs_to_artists artist))\<rparr>)
                  all_artists;
          edges = snd (fold (\<lambda>artist st.
                               fold (edge_visit all_artists artist)
                                    (get_direct_collaborators_raw songs_to_artists artist) st)
                            all_artists ({}, []))
      in \<lparr>nodes = nodes, edges = edges\<rparr>)"


text \<open>
  \<^verbatim>\<open>search_artists\<close>. \<^verbatim>\<open>query_lower in artist.lower()\<close> is the contiguous-substring test
  \<^const>\<open>sublist\<close>, \<^verbatim>\<open>startswith\<close> is \<^const>\<open>prefix\<close>. Python compares the key tuples
  lexicographically and strings by code point, which is the order of pairs, lists
  and characters used here; \<^verbatim>\<open>list.sort\<close> is stable, as \<^const>\<open>sort_key\<close> is. The local
  function \<^verbatim>\<open>sort_key\<close> of the source is \<open>sort_key_artist\<close>.
\<close>

definition sort_key_artist :: "string \<Rightarrow> string \<Rightarrow> int \<times> string" where
  "sort_key_artist query_lower artist =
     (let artist_lower = lower artist in
      if artist_lower = query_lower then (0, artist)
      else if prefix query_lower artist_lower then (1, artist)
      else (2, artist))"

definition search_artists :: "song_index \<Rightarrow> string \<Rightarrow> string list" where
  "search_artists songs_to_artists query =
     (if strip query = [] then []
      else
        let query_lower = lower query;
            artist_set =
              fold (\<lambda>(song, artists) s.
                      fold (\<lambda>artist s.
                              if sublist query_lower (lower artist) then set_add artist s else s)
                           artists s)
                   songs_to_artists [];
            results = artist_set
        in take 20 (sort_key (sort_key_artist query_lower) results))"

text \<open>
  The ranking in the words of the specification: exact case-insensitive match first,
  then prefix match, then any other substring match; within a tier, the
  lexicographically smaller name first.
\<close>

definition match_tier :: "string \<Rightarrow> string \<Rightarrow> nat" where
  "match_tier query artist =
     (if lower artist = lower query then 0
      else if prefix (lower query) (lower artist) then 1
      else 2)"

definition ranked_before :: "string \<Rightarrow> string \<Rightarrow> string \<Rightarrow> bool" where
  "ranked_before query a b \<longleftrightarrow>
     match_tier query a < match_tier query b \<or> (match_tier query a = match_tier query b \<and> a < b)"

definition matches :: "song_index \<Rightarrow> string \<Rightarrow> string set" where
  "matches songs_to_artists query =
     {a \<in> artist_names songs_to_artists. sublist (lower query) (lower a)}"


text \<open>
  The song-collaboration graph in the words of the specification: two distinct artists
  are joined when some song of the index lists both. \<open>hops idx n a b\<close> holds when \<open>b\<close> is
  reached from \<open>a\<close> by a walk of exactly \<open>n\<close> edges.
\<close>

definition collab_edge :: "song_index \<Rightarrow> string \<Rightarrow> string \<Rightarrow> bool" where
  "collab_edge songs_to_artists a b \<longleftrightarrow>
     a \<noteq> b \<and> (\<exists>(song, artists) \<in> set songs_to_artists. a \<in> set artists \<and> b \<in> set artists)"

fun hops :: "song_index \<Rightarrow> nat \<Rightarrow> string \<Rightarrow> string \<Rightarrow> bool" where
  "hops songs_to_artists 0 a b = (b = a)"
| "hops songs_to_artists (Suc n) a b =
     (\<exists>c \<in> artist_names songs_to_artists.
         hops songs_to_artists n a c \<and> collab_edge songs_to_artists c b)"


section \<open>The artist extractor and graph builder (data_processor.py)\<close>

text \<open>
  \<^verbatim>\<open>str.split(sep)\<close> for a non-empty separator: the parts between the leftmost
  non-overlapping occurrences of \<open>sep\<close>. (Python raises \<^verbatim>\<open>ValueError\<close> for an empty
  separator; every separator in the source is a non-empty literal, and here an
  empty separator never matches.) \<^verbatim>\<open>sep.join(parts)\<close> is \<open>join\<close>.
\<close>

fun split_from :: "string \<Rightarrow> string \<Rightarrow> string \<Rightarrow> string list" where
  "split_from sep cur [] = [cur]"
| "split_from sep cur (c # cs) =
     (if sep \<noteq> [] \<and> prefix sep (c # cs)
      then cur # split_from sep [] (drop (length sep - 1) cs)
      else split_from sep (cur @ [c]) cs)"

definition str_split :: "string \<Rightarrow> string \<Rightarrow> string list" where
  "str_split s sep = split_from sep [] s"

fun join :: "string \<Rightarrow> string list \<Rightarrow> string" where
  "join sep [] = []"
| "join sep [x] = x"
| "join sep (x # y # ys) = x @ sep @ join sep (y # ys)"

text \<open>
  \<^verbatim>\<open>re.subn(re.escape(exc), token, s)\<close>: every leftmost non-overlapping occurrence of
  the literal \<open>exc\<close> is replaced by \<open>token\<close>; the result is the new string and the
  number of replacements. Every pattern passed is a non-empty exception name.
\<close>

fun subn :: "string \<Rightarrow> string \<Rightarrow> string \<Rightarrow> string \<times> nat" where
  "subn pat repl [] = ([], 0)"
| "subn pat repl (c # cs) =
     (if pat \<noteq> [] \<and> prefix pat (c # cs)
      then (case subn pat repl (drop (length pat - 1) cs) of (r, n) \<Rightarrow> (repl @ r, n + 1))
      else (case subn pat repl cs of (r, n) \<Rightarrow> (c # r, n)))"

text \<open>\<^verbatim>\<open>str(n)\<close> for an integer: decimal digits, with a minus sign when negative.\<close>

definition digit_char :: "nat \<Rightarrow> char" where
  "digit_char n = ''0123456789'' ! n"

fun str_nat :: "nat \<Rightarrow> string" where
  "str_nat n = (if n < 10 then [digit_char n] else str_nat (n div 10) @ [digit_char (n mod 10)])"

definition str_int :: "int \<Rightarrow> string" where
  "str_int i = (if i < 0 then CHR ''-'' # str_nat (nat (- i)) else str_nat (nat i))"

text \<open>
  \<^verbatim>\<open>EXCEPTIONS\<close> is a Python set literal; \<^verbatim>\<open>enumerate(EXCEPTIONS)\<close> numbers its
  elements in the set's iteration order, which CPython does not fix for strings. The
  extractor therefore takes the enumeration \<open>excs\<close> as an argument; \<open>EXCEPTIONS\<close> is
  the order of the source text. The number only names the placeholder token.
\<close>

definition EXCEPTIONS :: "string list" where
  "EXCEPTIONS =
     [''Tyler, the Creator'',
      ''Tyler, The Creator'',
      ''John Scott Trotter & His Orchestra'',
      ''Ralph Carmichael Orchestra and Chorus'',
      ''AC/DC'',
      ''Earth, Wind & Fire'']"

definition delimiters :: "string list" where
  "delimiters = ['','', ''&'', ''/'', '' x '', '' with '', '' Featuring '']"

definition protect :: "nat \<times> string \<Rightarrow> string \<times> (string \<times> string) list \<Rightarrow> string \<times> (string \<times> string) list" where
  "protect = (\<lambda>(idx, exc) (tokenized, token_map).
     let token = ''__EXC_'' @ str_nat idx @ ''__''
     in case subn exc token tokenized of
          (tokenized', n) \<Rightarrow>
            (tokenized', if n > 0 then AList.update token exc token_map else token_map))"

definition restore :: "(string \<times> string) list \<Rightarrow> string \<Rightarrow> string list \<Rightarrow> string list" where
  "restore token_map a result =
     (let a = strip a in
      if a = [] then result
      else case map_of token_map a of
             Some exc \<Rightarrow> set_add exc result
           | None \<Rightarrow> set_add a result)"

definition split_artists :: "string list \<Rightarrow> string \<Rightarrow> string list" where
  "split_artists excs s =
     (if s = ''N/A'' then []
      else
        let s = strip s in
        case fold protect (enumerate 0 excs) (s, []) of
          (tokenized, token_map) \<Rightarrow>
            let temp = fold (\<lambda>delim temp. concat (map (\<lambda>part. str_split part delim) temp))
                            delimiters [tokenized]
            in fold (restore token_map) temp [])"

definition extract_artists :: "string list \<Rightarrow> string \<Rightarrow> string \<Rightarrow> string list" where
  "extract_artists excs artist_str featured_str =
     (let main_artists = split_artists excs artist_str;
          featured_artists = split_artists excs featured_str
      in fold set_add featured_artists main_artists)"

text \<open>
  \<^verbatim>\<open>collaborations\<close>: artist name to (collaborator name to weight), a dictionary of
  dictionaries. \<open>adj_weight\<close> reads \<^verbatim>\<open>collaborations[a][b]\<close> where it exists.
\<close>

type_synonym adjacency = "(string \<times> (string \<times> int) list) list"

definition adj_weight :: "adjacency \<Rightarrow> string \<Rightarrow> string \<Rightarrow> int option" where
  "adj_weight collaborations a b =
     (case map_of collaborations a of None \<Rightarrow> None | Some inner \<Rightarrow> map_of inner b)"

definition increment :: "string \<Rightarrow> string \<Rightarrow> adjacency \<Rightarrow> adjacency" where
  "increment artist other_artist collaborations =
     (if other_artist \<noteq> artist then
        let inner = dict_get collaborations artist [];
            inner = (if other_artist \<notin> dict_keys inner then AList.update other_artist 0 inner
                     else inner);
            inner = AList.update other_artist (dict_get inner other_artist 0 + 1) inner
        in AList.update artist inner collaborations
      else collaborations)"

definition update_collaborations :: "adjacency \<Rightarrow> string list \<Rightarrow> adjacency" where
  "update_collaborations collaborations artists =
     fold (\<lambda>artist collaborations.
             let collaborations =
                   (if artist \<notin> dict_keys collaborations
                    then AList.update artist [] collaborations
                    else collaborations)
             in fold (increment artist) artists collaborations)
          artists collaborations"

text \<open>
  One iteration of the row loop of \<^verbatim>\<open>_build_relationship_dicts\<close>. A row is the list
  of its CSV fields. Nothing in the loop body raises, so the \<^verbatim>\<open>except\<close> branch is
  never taken; the \<^verbatim>\<open>stats\<close> counters and the log are not modelled.
\<close>

definition song_key :: "string \<Rightarrow> string list \<Rightarrow> string \<Rightarrow> string" where
  "song_key title artists position =
     title @ ''/////'' @ join ''&&&'' (sort artists) @ ''/////'' @ position"

definition process_row :: "string list \<Rightarrow> string list \<Rightarrow> adjacency \<times> song_index \<Rightarrow> adjacency \<times> song_index" where
  "process_row excs row = (\<lambda>(collaborations, songs_to_artists).
     if length row \<noteq> 4 then (collaborations, songs_to_artists)
     else
       let position = row ! 0; title = row ! 1; artist_str = row ! 2; featured = row ! 3;
           artists = extract_artists excs artist_str featured
       in if artists = [] then (collaborations, songs_to_artists)
          else
            let songs_to_artists = AList.update (song_key title artists position) artists songs_to_artists;
                collaborations = update_collaborations collaborations artists
            in (collaborations, songs_to_artists))"

datatype error = StopIteration | ValueError string

text \<open>
  \<open>csv_rows\<close> is what \<^verbatim>\<open>csv.reader\<close> yields for the input file; \<^verbatim>\<open>next(reader)\<close> skips
  the header and raises \<^verbatim>\<open>StopIteration\<close> on an empty file.
\<close>

definition build_relationship_dicts :: "string list \<Rightarrow> string list list \<Rightarrow> error + adjacency \<times> song_index" where
  "build_relationship_dicts excs csv_rows =
     (case csv_rows of
        [] \<Rightarrow> Inl StopIteration
      | header # rows \<Rightarrow> Inr (fold (process_row excs) rows ([], [])))"

definition validate_data :: "adjacency \<Rightarrow> song_index \<Rightarrow> error + unit" where
  "validate_data collaborations songs_to_artists =
     (if collaborations = [] then Inl (ValueError ''No collaborations found'')
      else if songs_to_artists = [] then Inl (ValueError ''No songs found'')
      else Inr ())"

text \<open>
  The output files: a store from path to content. \<^verbatim>\<open>_save_with_backup\<close> renames an
  existing file to the path with \<^verbatim>\<open>.backup\<close> appended, then writes the new content.
\<close>

datatype content = Collaborations adjacency | Songs song_index

type_synonym files = "string \<rightharpoonup> content"

definition save_with_backup :: "files \<Rightarrow> content \<Rightarrow> string \<Rightarrow> files" where
  "save_with_backup fs data filepath =
     (let fs = (case fs filepath of
                  Some old \<Rightarrow> (fs(filepath := None))(filepath @ ''.backup'' \<mapsto> old)
                | None \<Rightarrow> fs)
      in fs(filepath \<mapsto> data))"

record ProcessingConfig =
  input_file :: string
  collaborations_output :: string
  songs_output :: string
  min_collaboration_count :: int

definition process_data ::
  "ProcessingConfig \<Rightarrow> string list \<Rightarrow> string list list \<Rightarrow> files \<Rightarrow> (error + adjacency \<times> song_index) \<times> files" where
  "process_data config excs csv_rows fs =
     (case build_relationship_dicts excs csv_rows of
        Inl e \<Rightarrow> (Inl e, fs)
      | Inr (collaborations, songs_to_artists) \<Rightarrow>
          (case validate_data collaborations songs_to_artists of
             Inl e \<Rightarrow> (Inl e, fs)
           | Inr u \<Rightarrow>
               let fs = save_with_backup fs (Collaborations collaborations) (collaborations_output config);
                   fs = save_with_backup fs (Songs songs_to_artists) (songs_output config)
               in (Inr (collaborations, songs_to_artists), fs)))"


section \<open>Properties of strings and dictionaries\<close>

lemma dict_keys_Nil [simp]: "dict_keys [] = {}"
  by (simp add: dict_keys_def)

lemma dict_keys_update: "dict_keys (AList.update k v d) = insert k (dict_keys d)"
  by (simp add: dict_keys_def dom_update)

lemma update_fresh: "k \<notin> dict_keys d \<Longrightarrow> AList.update k v d = d @ [(k, v)]"
  by (induction d) (auto simp: dict_keys_def)


lemma rdrop_Cons:
  "rev (dropWhile P (rev (x # t))) =
     (if \<forall>c \<in> set t. P c then (if P x then [] else [x]) else x # rev (dropWhile P (rev t)))"
proof (cases "\<forall>c \<in> set t. P c")
  case True
  then have "dropWhile P (rev t @ [x]) = dropWhile P [x]"
    by (intro dropWhile_append2) simp
  then show ?thesis using True by simp
next
  case False
  then obtain c where "c \<in> set (rev t)" "\<not> P c" by auto
  then have "dropWhile P (rev t @ [x]) = dropWhile P (rev t) @ [x]"
    by (rule dropWhile_append1)
  then show ?thesis using False by simp
qed

lemma dropWhile_strip: "dropWhile isspace (strip s) = strip s"
proof (cases "dropWhile isspace s")
  case Nil
  show ?thesis unfolding strip_def Nil by simp
next
  case (Cons x t)
  then have "\<not> isspace x" using hd_dropWhile[of isspace s] by auto
  then show ?thesis unfolding strip_def Cons rdrop_Cons by simp
qed

lemma strip_idem: "strip (strip s) = strip s"
proof -
  have "strip (strip s) = rev (dropWhile isspace (rev (strip s)))"
    by (simp add: strip_def[of "strip s"] dropWhile_strip)
  also have "\<dots> = strip s" by (simp add: strip_def)
  finally show ?thesis .
qed

lemma strip_pad:
  assumes l: "\<forall>c \<in> set l. isspace c" and r: "\<forall>c \<in> set r. isspace c"
  shows "strip (l @ x @ r) = strip x"
proof -
  have 1: "dropWhile isspace (l @ x @ r) = dropWhile isspace (x @ r)"
    using l by (intro dropWhile_append2) simp
  show ?thesis
  proof (cases "\<forall>c \<in> set x. isspace c")
    case True
    then have a: "dropWhile isspace (x @ r) = []" and b: "dropWhile isspace x = []"
      using r by auto
    show ?thesis unfolding strip_def 1 a b by simp
  next
    case False
    then obtain c where "c \<in> set x" "\<not> isspace c" by auto
    then have 2: "dropWhile isspace (x @ r) = dropWhile isspace x @ r"
      by (rule dropWhile_append1)
    have "dropWhile isspace (rev r @ rev (dropWhile isspace x)) = dropWhile isspace (rev (dropWhile isspace x))"
      using r by (intro dropWhile_append2) simp
    then show ?thesis using 1 2 by (simp add: strip_def)
  qed
qed


section \<open>Direct collaborators\<close>

lemma dict_keys_count_others:
  "dict_keys (count_others a artists c) = dict_keys c \<union> (set artists - {a})"
  unfolding count_others_def
  by (induction artists arbitrary: c) (auto simp: dict_keys_update)

lemma dict_keys_scan:
  "dict_keys (fold (\<lambda>(song, artists) connections.
              if a \<in> set artists then count_others a artists connections else connections) idx c)
   = dict_keys c \<union> {b. b \<noteq> a \<and> (\<exists>(song, artists) \<in> set idx. a \<in> set artists \<and> b \<in> set artists)}"
proof (induction idx arbitrary: c)
  case Nil
  then show ?case by simp
next
  case (Cons p idx)
  obtain song artists where p: "p = (song, artists)" by (cases p)
  show ?case
  proof (cases "a \<in> set artists")
    case True
    then show ?thesis using Cons.IH[of "count_others a artists c"] p
      by (auto simp: dict_keys_count_others)
  next
    case False
    then show ?thesis using Cons.IH[of c] p by auto
  qed
qed

lemma dict_keys_raw:
  "dict_keys (get_direct_collaborators_raw idx x)
   = {b. b \<noteq> strip x \<and> (\<exists>(song, artists) \<in> set idx. strip x \<in> set artists \<and> b \<in> set artists)}"
  unfolding get_direct_collaborators_raw_def Let_def by (simp add: dict_keys_scan)

lemma dict_keys_raw_subset: "dict_keys (get_direct_collaborators_raw idx x) \<subseteq> artist_names idx"
  by (auto simp: dict_keys_raw artist_names_def)

lemma finite_artist_names: "finite (artist_names idx)"
  by (auto simp: artist_names_def)


section \<open>Termination of the breadth-first search\<close>

text \<open>
  Every vertex that is enqueued leaves the finite set of unvisited artist names, so
  twice the number of unvisited names plus the queue length decreases with every
  iteration of the \<^verbatim>\<open>while queue\<close> loop.
\<close>

definition bfs_measure :: "song_index \<Rightarrow> string set \<Rightarrow> (string \<times> int) list \<Rightarrow> nat" where
  "bfs_measure idx visited queue = 2 * card (artist_names idx - visited) + length queue"

lemma bfs_visit_measure:
  assumes "fst p \<in> artist_names idx" "bfs_visit d p (V, Q, C) = (V', Q', C')"
  shows "bfs_measure idx V' Q' \<le> bfs_measure idx V Q"
proof (cases "fst p \<notin> V \<and> fst p \<notin> dict_keys C")
  case True
  then have V': "V' = insert (fst p) V" and Q': "length Q' = Suc (length Q)"
    using assms(2) by (auto simp: bfs_visit_def split: prod.splits)
  have eq: "artist_names idx - V' = (artist_names idx - V) - {fst p}" using V' by auto
  have "finite (artist_names idx - V)" using finite_artist_names[of idx] by simp
  moreover have "fst p \<in> artist_names idx - V" using True assms(1) by simp
  ultimately have "Suc (card (artist_names idx - V')) = card (artist_names idx - V)"
    unfolding eq by (rule card_Suc_Diff1)
  then show ?thesis using Q' by (simp add: bfs_measure_def)
next
  case False
  then have "V' = V" "Q' = Q"
    using assms(2) by (auto simp: bfs_visit_def split: prod.splits if_splits)
  then show ?thesis by simp
qed

lemma fold_bfs_visit_measure:
  assumes "fst ` set ps \<subseteq> artist_names idx" "fold (bfs_visit d) ps (V, Q, C) = (V', Q', C')"
  shows "bfs_measure idx V' Q' \<le> bfs_measure idx V Q"
  using assms
proof (induction ps arbitrary: V Q C)
  case Nil
  then show ?case by simp
next
  case (Cons p ps)
  obtain V1 Q1 C1 where s: "bfs_visit d p (V, Q, C) = (V1, Q1, C1)"
    by (cases "bfs_visit d p (V, Q, C)")
  have "bfs_measure idx V1 Q1 \<le> bfs_measure idx V Q"
    using bfs_visit_measure[OF _ s] Cons.prems(1) by simp
  moreover have "bfs_measure idx V' Q' \<le> bfs_measure idx V1 Q1"
    using Cons.IH[of V1 Q1 C1] Cons.prems s by simp
  ultimately show ?case by simp
qed

termination bfs_loop
proof (relation "measure (\<lambda>(idx, maxd, V, Q, C). bfs_measure idx V Q)", goal_cases)
  case 1
  then show ?case by simp
next
  case (2 idx maxd V cur deg Q C)
  then show ?case by (simp add: bfs_measure_def)
next
  case (3 idx maxd V cur deg Q C V' y Q' C')
  have sub: "fst ` set (get_direct_collaborators_raw idx cur) \<subseteq> artist_names idx"
    using dict_keys_raw_subset[of idx cur] by (simp add: dict_keys_def)
  have "fold (bfs_visit deg) (get_direct_collaborators_raw idx cur) (V, Q, C) = (V', Q', C')"
    using 3 by simp
  then have "bfs_measure idx V' Q' \<le> bfs_measure idx V Q"
    by (rule fold_bfs_visit_measure[OF sub])
  then show ?case by (simp add: bfs_measure_def)
qed

section \<open>The degree-1 shortcut\<close>

lemma distinct_count_others:
  "distinct (map fst c) \<Longrightarrow> distinct (map fst (count_others a artists c))"
  unfolding count_others_def
  by (induction artists arbitrary: c) (auto simp: distinct_update)

lemma distinct_scan:
  "distinct (map fst c) \<Longrightarrow>
   distinct (map fst (fold (\<lambda>(song, artists) connections.
              if a \<in> set artists then count_others a artists connections else connections) idx c))"
  by (induction idx arbitrary: c) (auto simp: distinct_count_others split: prod.splits)

lemma distinct_raw: "distinct (map fst (get_direct_collaborators_raw idx x))"
  unfolding get_direct_collaborators_raw_def Let_def by (rule distinct_scan) simp

lemma raw_strip: "get_direct_collaborators_raw idx (strip x) = get_direct_collaborators_raw idx x"
  by (simp add: get_direct_collaborators_raw_def strip_idem)

lemma fold_update_fresh:
  "distinct (map fst ps) \<Longrightarrow> dict_keys ps \<inter> dict_keys r = {} \<Longrightarrow>
   fold (\<lambda>(k, v) r. AList.update k (f k v) r) ps r = r @ map (\<lambda>(k, v). (k, f k v)) ps"
proof (induction ps arbitrary: r)
  case Nil
  then show ?case by simp
next
  case (Cons p ps)
  obtain k v where p: "p = (k, v)" by (cases p)
  have fresh: "k \<notin> dict_keys r" using Cons.prems(2) p by (auto simp: dict_keys_def)
  have "dict_keys ps \<inter> dict_keys (r @ [(k, f k v)]) = {}"
    using Cons.prems p by (auto simp: dict_keys_def)
  then show ?case using Cons.IH[of "r @ [(k, f k v)]"] Cons.prems(1) p fresh
    by (simp add: update_fresh)
qed

lemma get_direct_connections_map:
  "get_direct_connections idx x =
     map (\<lambda>(k, v). (k, \<lparr>count = v, degree = 1\<rparr>)) (get_direct_collaborators_raw idx x)"
proof -
  have "fold (\<lambda>(k, v) r. AList.update k \<lparr>count = v, degree = 1\<rparr> r) (get_direct_collaborators_raw idx x) []
      = [] @ map (\<lambda>(k, v). (k, \<lparr>count = v, degree = 1\<rparr>)) (get_direct_collaborators_raw idx x)"
    by (rule fold_update_fresh[where f = "\<lambda>k v. \<lparr>count = v, degree = 1\<rparr>"]) (simp_all add: distinct_raw)
  then show ?thesis
    by (simp add: get_direct_connections_def get_direct_collaborators_raw_def Let_def)
qed

lemma fold_bfs_visit_fresh:
  "distinct (map fst ps) \<Longrightarrow> dict_keys ps \<inter> V = {} \<Longrightarrow> dict_keys ps \<inter> dict_keys C = {} \<Longrightarrow>
   fold (bfs_visit d) ps (V, Q, C) =
     (V \<union> dict_keys ps, Q @ map (\<lambda>(k, v). (k, d + 1)) ps,
      C @ map (\<lambda>(k, v). (k, \<lparr>count = v, degree = d + 1\<rparr>)) ps)"
proof (induction ps arbitrary: V Q C)
  case Nil
  then show ?case by simp
next
  case (Cons p ps)
  obtain k v where p: "p = (k, v)" by (cases p)
  have fresh: "k \<notin> V" "k \<notin> dict_keys C" using Cons.prems p by (auto simp: dict_keys_def)
  have step: "bfs_visit d p (V, Q, C) =
     (insert k V, Q @ [(k, d + 1)], C @ [(k, \<lparr>count = v, degree = d + 1\<rparr>)])"
    using fresh p by (simp add: bfs_visit_def update_fresh)
  have "dict_keys ps \<inter> insert k V = {}"
       "dict_keys ps \<inter> dict_keys (C @ [(k, \<lparr>count = v, degree = d + 1\<rparr>)]) = {}"
    using Cons.prems p by (auto simp: dict_keys_def)
  then show ?case using Cons.IH[of "insert k V" "C @ [(k, \<lparr>count = v, degree = d + 1\<rparr>)]" "Q @ [(k, d + 1)]"]
      Cons.prems(1) p step
    by (simp add: dict_keys_def)
qed

lemma bfs_loop_done:
  "\<forall>(x, d) \<in> set Q. maxd \<le> d \<Longrightarrow> bfs_loop idx maxd V Q C = C"
  by (induction Q) auto

lemma bfs_one_eq_direct: "get_connections_bfs idx x 1 = get_direct_connections idx x"
proof -
  let ?a = "strip x"
  let ?R = "get_direct_collaborators_raw idx x"
  have keys: "?a \<notin> dict_keys ?R" by (simp add: dict_keys_raw)
  have f: "fold (bfs_visit 0) ?R ({?a}, [], []) =
     ({?a} \<union> dict_keys ?R, [] @ map (\<lambda>(k, v). (k, 0 + 1)) ?R,
      [] @ map (\<lambda>(k, v). (k, \<lparr>count = v, degree = 0 + 1\<rparr>)) ?R)"
    using keys by (intro fold_bfs_visit_fresh) (simp_all add: distinct_raw)
  have "bfs_loop idx 1 {?a} [(?a, 0)] [] =
        bfs_loop idx 1 ({?a} \<union> dict_keys ?R) (map (\<lambda>(k, v). (k, 1)) ?R)
           (map (\<lambda>(k, v). (k, \<lparr>count = v, degree = 1\<rparr>)) ?R)"
    using f by (simp add: raw_strip)
  also have "\<dots> = map (\<lambda>(k, v). (k, \<lparr>count = v, degree = 1\<rparr>)) ?R"
    by (rule bfs_loop_done) auto
  finally show ?thesis
    by (simp add: get_connections_bfs_def get_direct_connections_map)
qed

text \<open>
  Claim C4. For every artist name and every song index, the degree-1 query
  \<open>get_artist_connections idx A 1\<close> (which short-circuits to the direct-connections scan)
  and the breadth-first search run with \<open>max_degree = 1\<close> both return exactly the
  dictionary of \<open>get_direct_connections idx A\<close>: the same collaborators, in the same
  order, each with the same count and with degree 1.
\<close>

theorem degree_one_shortcut_equivalence:
  "get_artist_connections idx A 1 = get_direct_connections idx A
   \<and> get_connections_bfs idx A 1 = get_direct_connections idx A"
  by (simp add: get_artist_connections_def bfs_one_eq_direct)

section \<open>Termination of the subgraph traversal\<close>

lemma graph_visit_measure:
  assumes "c \<in> artist_names idx" "graph_visit d c (V, A, Q) = (V', A', Q')"
  shows "bfs_measure idx V' Q' \<le> bfs_measure idx V Q"
proof (cases "c \<notin> V")
  case True
  then have V': "V' = insert c V" and Q': "length Q' = Suc (length Q)"
    using assms(2) by (auto simp: graph_visit_def)
  have eq: "artist_names idx - V' = (artist_names idx - V) - {c}" using V' by auto
  have "finite (artist_names idx - V)" using finite_artist_names[of idx] by simp
  moreover have "c \<in> artist_names idx - V" using True assms(1) by simp
  ultimately have "Suc (card (artist_names idx - V')) = card (artist_names idx - V)"
    unfolding eq by (rule card_Suc_Diff1)
  then show ?thesis using Q' by (simp add: bfs_measure_def)
next
  case False
  then have "V' = V" "Q' = Q"
    using assms(2) by (auto simp: graph_visit_def)
  then show ?thesis by simp
qed

lemma fold_graph_visit_measure:
  assumes "set cs \<subseteq> artist_names idx" "fold (graph_visit d) cs (V, A, Q) = (V', A', Q')"
  shows "bfs_measure idx V' Q' \<le> bfs_measure idx V Q"
  using assms
proof (induction cs arbitrary: V A Q)
  case Nil
  then show ?case by simp
next
  case (Cons c cs)
  obtain V1 A1 Q1 where s: "graph_visit d c (V, A, Q) = (V1, A1, Q1)"
    by (cases "graph_visit d c (V, A, Q)")
  have "bfs_measure idx V1 Q1 \<le> bfs_measure idx V Q"
    using graph_visit_measure[OF _ s] Cons.prems(1) by simp
  moreover have "bfs_measure idx V' Q' \<le> bfs_measure idx V1 Q1"
    using Cons.IH[of V1 A1 Q1] Cons.prems s by simp
  ultimately show ?case by simp
qed

termination graph_loop
proof (relation "measure (\<lambda>(idx, dg, V, A, Q). bfs_measure idx V Q)", goal_cases)
  case 1
  then show ?case by simp
next
  case (2 idx dg V A cur deg Q V' y A' Q')
  have sub: "set (map fst (get_direct_collaborators_raw idx cur)) \<subseteq> artist_names idx"
    using dict_keys_raw_subset[of idx cur] by (simp add: dict_keys_def)
  have "fold (graph_visit deg) (map fst (get_direct_collaborators_raw idx cur)) (V, A, Q) = (V', A', Q')"
    using 2 by simp
  then have "bfs_measure idx V' Q' \<le> bfs_measure idx V Q"
    by (rule fold_graph_visit_measure[OF sub])
  then show ?case by (simp add: bfs_measure_def)
next
  case (3 idx dg V A cur deg Q)
  then show ?case by (simp add: bfs_measure_def)
qed


section \<open>Trimming of the artist-name argument\<close>

lemma get_direct_connections_pad:
  assumes "\<forall>c \<in> set l. isspace c" "\<forall>c \<in> set r. isspace c"
  shows "get_direct_connections idx (l @ x @ r) = get_direct_connections idx x"
  by (simp add: get_direct_connections_def strip_pad[OF assms])

lemma get_connections_bfs_pad:
  assumes "\<forall>c \<in> set l. isspace c" "\<forall>c \<in> set r. isspace c"
  shows "get_connections_bfs idx (l @ x @ r) d = get_connections_bfs idx x d"
  by (simp add: get_connections_bfs_def strip_pad[OF assms])

lemma get_artist_connections_pad:
  assumes "\<forall>c \<in> set l. isspace c" "\<forall>c \<in> set r. isspace c"
  shows "get_artist_connections idx (l @ x @ r) d = get_artist_connections idx x d"
  by (simp add: get_artist_connections_def get_direct_connections_pad[OF assms]
      get_connections_bfs_pad[OF assms])

lemma get_artist_connections_graph_pad:
  assumes "\<forall>c \<in> set l. isspace c" "\<forall>c \<in> set r. isspace c"
  shows "get_artist_connections_graph idx (l @ x @ r) d = get_artist_connections_graph idx x d"
  by (simp add: get_artist_connections_graph_def strip_pad[OF assms])

text \<open>
  Claim C7 (fails for the existence check). \<open>artist_exists\<close> compares its argument with
  the names of the song index as it is given, without the \<^verbatim>\<open>strip()\<close> that the three
  other lookups apply: on an index with one song by X and Y, the name \<open>'' X''\<close> (a
  leading space added) is reported as absent although \<open>''X''\<close> exists.
\<close>

theorem artist_exists_not_trimmed:
  "artist_exists [(''S/////X&&&Y/////1'', [''X'', ''Y''])] '' X'' = False
   \<and> strip '' X'' = ''X''
   \<and> artist_exists [(''S/////X&&&Y/////1'', [''X'', ''Y''])] ''X'' = True
   \<and> get_artist_connections [(''S/////X&&&Y/////1'', [''X'', ''Y''])] '' X'' 1
       = [(''Y'', \<lparr>count = 1, degree = 1\<rparr>)]"
  by (simp add: artist_exists_def strip_def isspace_def get_artist_connections_def
      get_direct_connections_def count_others_def dict_get_def)

section \<open>Name search\<close>

lemma set_add_set: "set (set_add x s) = insert x (set s)"
  by (auto simp: set_add_def)

lemma set_add_distinct: "distinct s \<Longrightarrow> distinct (set_add x s)"
  by (auto simp: set_add_def)

lemma collect_inner:
  "set (fold (\<lambda>artist s. if P artist then set_add artist s else s) artists s)
     = set s \<union> {a \<in> set artists. P a}"
  by (induction artists arbitrary: s) (auto simp: set_add_set)

lemma collect_inner_distinct:
  "distinct s \<Longrightarrow> distinct (fold (\<lambda>artist s. if P artist then set_add artist s else s) artists s)"
  by (induction artists arbitrary: s) (auto simp: set_add_distinct)

lemma collect_outer:
  "set (fold (\<lambda>(song, artists) s. fold (\<lambda>artist s. if P artist then set_add artist s else s) artists s) idx s)
     = set s \<union> {a \<in> artist_names idx. P a}"
proof (induction idx arbitrary: s)
  case Nil
  then show ?case by (simp add: artist_names_def)
next
  case (Cons p idx)
  obtain song artists where p: "p = (song, artists)" by (cases p)
  have "artist_names (p # idx) = set artists \<union> artist_names idx"
    using p by (simp add: artist_names_def)
  then show ?case using Cons.IH p by (auto simp: collect_inner)
qed

lemma collect_outer_distinct:
  "distinct s \<Longrightarrow>
   distinct (fold (\<lambda>(song, artists) s. fold (\<lambda>artist s. if P artist then set_add artist s else s) artists s) idx s)"
  by (induction idx arbitrary: s) (auto simp: collect_inner_distinct split: prod.splits)

lemma sort_key_artist_less:
  "sort_key_artist (lower q) a < sort_key_artist (lower q) b \<longleftrightarrow> ranked_before q a b"
  by (auto simp: sort_key_artist_def ranked_before_def match_tier_def Let_def less_prod_def)

lemma sort_key_artist_inj: "sort_key_artist ql a = sort_key_artist ql b \<Longrightarrow> a = b"
  by (auto simp: sort_key_artist_def Let_def split: if_splits)


lemma search_artists_form:
  assumes "strip q \<noteq> []"
  shows "\<exists>R. distinct R \<and> set R = matches idx q \<and>
             search_artists idx q = take 20 (sort_key (sort_key_artist (lower q)) R)"
proof -
  let ?R = "fold (\<lambda>(song, artists) s.
                      fold (\<lambda>artist s.
                              if sublist (lower q) (lower artist) then set_add artist s else s)
                           artists s) idx []"
  have "distinct ?R" by (rule collect_outer_distinct) simp
  moreover have "set ?R = matches idx q" by (simp add: collect_outer matches_def)
  moreover have "search_artists idx q = take 20 (sort_key (sort_key_artist (lower q)) ?R)"
    using assms by (simp add: search_artists_def Let_def)
  ultimately show ?thesis by blast
qed

lemma sorted_key_strict:
  assumes "distinct S" "sorted (map (sort_key_artist (lower q)) S)" "i < j" "j < length S"
  shows "ranked_before q (S ! i) (S ! j)"
proof -
  let ?f = "sort_key_artist (lower q)"
  have "map ?f S ! i \<le> map ?f S ! j"
    using assms(2,3,4) by (simp add: sorted_iff_nth_mono)
  then have le: "?f (S ! i) \<le> ?f (S ! j)" using assms(3,4) by simp
  have "S ! i \<noteq> S ! j" using assms(1,3,4) by (simp add: nth_eq_iff_index_eq)
  then have "?f (S ! i) \<noteq> ?f (S ! j)" using sort_key_artist_inj by blast
  then have "?f (S ! i) < ?f (S ! j)" using le by simp
  then show ?thesis by (simp add: sort_key_artist_less)
qed

text \<open>
  Claim C5. An empty or whitespace-only query yields the empty list. Otherwise the
  result consists of names of the song index that contain the query as a
  case-insensitive substring, without repetition; every two entries are in ranking
  order (exact match before prefix match before other substring match, equal tiers by
  lexicographic order of the name); the result has \<open>min 20 (number of matches)\<close>
  entries, so at most 20; and every match left out is ranked after every entry
  returned.
\<close>

theorem search_artists_ranked:
  "(strip q = [] \<longrightarrow> search_artists idx q = []) \<and>
   (strip q \<noteq> [] \<longrightarrow>
      set (search_artists idx q) \<subseteq> matches idx q \<and>
      distinct (search_artists idx q) \<and>
      length (search_artists idx q) = min 20 (card (matches idx q)) \<and>
      (\<forall>i j. i < j \<and> j < length (search_artists idx q) \<longrightarrow>
          ranked_before q (search_artists idx q ! i) (search_artists idx q ! j)) \<and>
      (\<forall>m \<in> matches idx q - set (search_artists idx q). \<forall>r \<in> set (search_artists idx q).
          ranked_before q r m))"
proof (intro conjI impI)
  assume "strip q = []"
  then show "search_artists idx q = []" by (simp add: search_artists_def)
next
  assume ne: "strip q \<noteq> []"
  let ?f = "sort_key_artist (lower q)"
  obtain R where R: "distinct R" "set R = matches idx q"
    and rs: "search_artists idx q = take 20 (sort_key ?f R)"
    using search_artists_form[OF ne] by blast
  define S where "S = sort_key ?f R"
  have S: "distinct S" "set S = matches idx q" "sorted (map ?f S)"
    using R by (simp_all add: S_def)
  have rs': "search_artists idx q = take 20 S" using rs by (simp add: S_def)
  have lenS: "length S = card (matches idx q)"
    using S(1,2) distinct_card[of S] by simp
  show "set (search_artists idx q) \<subseteq> matches idx q"
    using set_take_subset[of 20 S] S(2) rs' by simp
  show "distinct (search_artists idx q)" using S(1) rs' by simp
  show "length (search_artists idx q) = min 20 (card (matches idx q))"
    using lenS rs' by (simp add: min_def)
  show "\<forall>i j. i < j \<and> j < length (search_artists idx q) \<longrightarrow>
          ranked_before q (search_artists idx q ! i) (search_artists idx q ! j)"
  proof (intro allI impI)
    fix i j assume ij: "i < j \<and> j < length (search_artists idx q)"
    then have "j < length S" "j < 20" "i < 20" using rs' by simp_all
    then have "search_artists idx q ! i = S ! i" "search_artists idx q ! j = S ! j"
      using rs' by simp_all
    then show "ranked_before q (search_artists idx q ! i) (search_artists idx q ! j)"
      using sorted_key_strict[OF S(1) S(3), of i j] ij \<open>j < length S\<close> by simp
  qed
  show "\<forall>m \<in> matches idx q - set (search_artists idx q). \<forall>r \<in> set (search_artists idx q).
          ranked_before q r m"
  proof (intro ballI)
    fix m r
    assume m: "m \<in> matches idx q - set (search_artists idx q)"
      and r: "r \<in> set (search_artists idx q)"
    from m S(2) have "m \<in> set S" by simp
    then obtain k where k: "k < length S" "S ! k = m"
      unfolding in_set_conv_nth by blast
    from r rs' have "r \<in> set (take 20 S)" by simp
    then obtain i where i: "i < length (take 20 S)" "take 20 S ! i = r"
      unfolding in_set_conv_nth by blast
    then have i': "i < 20" "i < length S" "S ! i = r" by simp_all
    have "\<not> k < 20"
    proof
      assume "k < 20"
      then have "take 20 S ! k = m" "k < length (take 20 S)" using k by simp_all
      then have "m \<in> set (take 20 S)" using nth_mem by blast
      then show False using m rs' by simp
    qed
    then have "i < k" using i'(1) by simp
    then show "ranked_before q r m"
      using sorted_key_strict[OF S(1) S(3), of i k] k i' by simp
  qed
qed

theorem search_artists_ranked_witness:
  "strip ''drake'' \<noteq> []
   \<and> search_artists [(''k1'', [''Drake'', ''Sir Drake'']), (''k2'', [''drakeo'', ''DRAKE'', ''Drake'']),
                      (''k3'', [''Adele''])] ''drake''
       = [''DRAKE'', ''Drake'', ''drakeo'', ''Sir Drake'']
   \<and> ranked_before ''drake'' ''drakeo'' ''Sir Drake''
   \<and> search_artists [(''k1'', [''Drake'']),  (''k3'', [''Adele''])] ''  '' = []"
proof -
  let ?idx = "[(''k1'', [''Drake'', ''Sir Drake'']), (''k2'', [''drakeo'', ''DRAKE'', ''Drake'']),
               (''k3'', [''Adele''])]"
  have ne: "strip ''drake'' \<noteq> []" by (simp add: strip_def isspace_def)
  have ev: "search_artists ?idx ''drake'' = [''DRAKE'', ''Drake'', ''drakeo'', ''Sir Drake'']"
    by code_simp
  have "\<forall>i j. i < j \<and> j < length (search_artists ?idx ''drake'') \<longrightarrow>
          ranked_before ''drake'' (search_artists ?idx ''drake'' ! i) (search_artists ?idx ''drake'' ! j)"
    using search_artists_ranked[of "''drake''" ?idx] ne by blast
  then have "2 < (3::nat) \<and> 3 < length (search_artists ?idx ''drake'') \<longrightarrow>
       ranked_before ''drake'' (search_artists ?idx ''drake'' ! 2) (search_artists ?idx ''drake'' ! 3)"
    by blast
  then have rb: "ranked_before ''drake'' ''drakeo'' ''Sir Drake''" unfolding ev by simp
  have sp: "strip ''  '' = []" by (simp add: strip_def isspace_def)
  have "search_artists [(''k1'', [''Drake'']),  (''k3'', [''Adele''])] ''  '' = []"
    using search_artists_ranked[of "''  ''" "[(''k1'', [''Drake'']),  (''k3'', [''Adele''])]"] sp by blast
  then show ?thesis using ne ev rb by blast
qed

section \<open>Correctness of the breadth-first search\<close>

text \<open>
  The search expands a vertex \<open>x\<close> through the keys of
  \<open>get_direct_collaborators_raw idx x\<close>; \<open>walk\<close> counts steps along these, and
  \<open>isdist\<close> is the least number of steps. The loop invariant \<open>bfs_inv\<close> states that
  the visited set is the origin plus the keys found so far, that every recorded or
  queued degree is the least number of steps, that the queue is sorted with degrees
  at most one apart, and that every visited vertex that has left the queue below the
  depth bound has all its neighbours visited.
\<close>

definition nbrs :: "song_index \<Rightarrow> string \<Rightarrow> string set" where
  "nbrs idx x = dict_keys (get_direct_collaborators_raw idx x)"

fun walk :: "song_index \<Rightarrow> nat \<Rightarrow> string \<Rightarrow> string \<Rightarrow> bool" where
  "walk idx 0 a b = (b = a)"
| "walk idx (Suc n) a b = (\<exists>c. walk idx n a c \<and> b \<in> nbrs idx c)"

definition isdist :: "song_index \<Rightarrow> string \<Rightarrow> nat \<Rightarrow> string \<Rightarrow> bool" where
  "isdist idx a n x \<longleftrightarrow> walk idx n a x \<and> (\<forall>m. walk idx m a x \<longrightarrow> n \<le> m)"

lemma isdist_unique: "isdist idx a n x \<Longrightarrow> isdist idx a m x \<Longrightarrow> n = m"
  by (auto simp: isdist_def intro: le_antisym)

lemma walk_isdist: "walk idx n a x \<Longrightarrow> \<exists>m. m \<le> n \<and> isdist idx a m x"
proof -
  assume w: "walk idx n a x"
  let ?m = "LEAST m. walk idx m a x"
  have "walk idx ?m a x" using w by (rule LeastI)
  moreover have "\<forall>k. walk idx k a x \<longrightarrow> ?m \<le> k" by (simp add: Least_le)
  ultimately show ?thesis using w unfolding isdist_def by blast
qed

definition bfs_inv ::
  "song_index \<Rightarrow> string \<Rightarrow> int \<Rightarrow> string set \<Rightarrow> (string \<times> int) list \<Rightarrow> (string \<times> connection) list \<Rightarrow> bool" where
  "bfs_inv idx a maxd V Q C \<longleftrightarrow>
     V = insert a (dict_keys C) \<and> a \<notin> dict_keys C \<and> distinct (map fst C) \<and>
     (\<forall>x c. (x, c) \<in> set C \<longrightarrow> 1 \<le> degree c \<and> degree c \<le> maxd \<and> isdist idx a (nat (degree c)) x) \<and>
     (\<forall>x d. (x, d) \<in> set Q \<longrightarrow> 0 \<le> d \<and> x \<in> V \<and> isdist idx a (nat d) x) \<and>
     sorted (map snd Q) \<and>
     (\<forall>x d y e. (x, d) \<in> set Q \<and> (y, e) \<in> set Q \<longrightarrow> e \<le> d + 1) \<and>
     (\<forall>x n. x \<in> V \<and> x \<notin> fst ` set Q \<and> isdist idx a n x \<and> int n < maxd \<longrightarrow> nbrs idx x \<subseteq> V)"

lemma bfs_invD:
  assumes "bfs_inv idx a maxd V Q C"
  shows "V = insert a (dict_keys C)" "a \<notin> dict_keys C" "distinct (map fst C)"
    "\<And>x c. (x, c) \<in> set C \<Longrightarrow> 1 \<le> degree c \<and> degree c \<le> maxd \<and> isdist idx a (nat (degree c)) x"
    "\<And>x d. (x, d) \<in> set Q \<Longrightarrow> 0 \<le> d \<and> x \<in> V \<and> isdist idx a (nat d) x"
    "sorted (map snd Q)"
    "\<And>x d y e. (x, d) \<in> set Q \<Longrightarrow> (y, e) \<in> set Q \<Longrightarrow> e \<le> d + 1"
    "\<And>x n. x \<in> V \<Longrightarrow> x \<notin> fst ` set Q \<Longrightarrow> isdist idx a n x \<Longrightarrow> int n < maxd \<Longrightarrow> nbrs idx x \<subseteq> V"
proof -
  note inv = assms[unfolded bfs_inv_def]
  show "V = insert a (dict_keys C)" using inv by (elim conjE)
  show "a \<notin> dict_keys C" using inv by (elim conjE)
  show "distinct (map fst C)" using inv by (elim conjE)
  have c4: "\<forall>x c. (x, c) \<in> set C \<longrightarrow> 1 \<le> degree c \<and> degree c \<le> maxd \<and> isdist idx a (nat (degree c)) x"
    using inv by (elim conjE)
  show "\<And>x c. (x, c) \<in> set C \<Longrightarrow> 1 \<le> degree c \<and> degree c \<le> maxd \<and> isdist idx a (nat (degree c)) x"
    using c4 by blast
  have c5: "\<forall>x d. (x, d) \<in> set Q \<longrightarrow> 0 \<le> d \<and> x \<in> V \<and> isdist idx a (nat d) x"
    using inv by (elim conjE)
  show "\<And>x d. (x, d) \<in> set Q \<Longrightarrow> 0 \<le> d \<and> x \<in> V \<and> isdist idx a (nat d) x"
    using c5 by blast
  show "sorted (map snd Q)" using inv by (elim conjE)
  have c7: "\<forall>x d y e. (x, d) \<in> set Q \<and> (y, e) \<in> set Q \<longrightarrow> e \<le> d + 1"
    using inv by (elim conjE)
  show "\<And>x d y e. (x, d) \<in> set Q \<Longrightarrow> (y, e) \<in> set Q \<Longrightarrow> e \<le> d + 1"
    using c7 by blast
  have c8: "\<forall>x n. x \<in> V \<and> x \<notin> fst ` set Q \<and> isdist idx a n x \<and> int n < maxd \<longrightarrow> nbrs idx x \<subseteq> V"
    using inv by (elim conjE)
  show "\<And>x n. x \<in> V \<Longrightarrow> x \<notin> fst ` set Q \<Longrightarrow> isdist idx a n x \<Longrightarrow> int n < maxd \<Longrightarrow> nbrs idx x \<subseteq> V"
    using c8 by blast
qed

lemma bfs_invI:
  assumes "V = insert a (dict_keys C)" "a \<notin> dict_keys C" "distinct (map fst C)"
    "\<And>x c. (x, c) \<in> set C \<Longrightarrow> 1 \<le> degree c \<and> degree c \<le> maxd \<and> isdist idx a (nat (degree c)) x"
    "\<And>x d. (x, d) \<in> set Q \<Longrightarrow> 0 \<le> d \<and> x \<in> V \<and> isdist idx a (nat d) x"
    "sorted (map snd Q)"
    "\<And>x d y e. (x, d) \<in> set Q \<Longrightarrow> (y, e) \<in> set Q \<Longrightarrow> e \<le> d + 1"
    "\<And>x n. x \<in> V \<Longrightarrow> x \<notin> fst ` set Q \<Longrightarrow> isdist idx a n x \<Longrightarrow> int n < maxd \<Longrightarrow> nbrs idx x \<subseteq> V"
  shows "bfs_inv idx a maxd V Q C"
proof -
  have c4: "\<forall>x c. (x, c) \<in> set C \<longrightarrow> 1 \<le> degree c \<and> degree c \<le> maxd \<and> isdist idx a (nat (degree c)) x"
    using assms(4) by blast
  have c5: "\<forall>x d. (x, d) \<in> set Q \<longrightarrow> 0 \<le> d \<and> x \<in> V \<and> isdist idx a (nat d) x"
    using assms(5) by blast
  have c7: "\<forall>x d y e. (x, d) \<in> set Q \<and> (y, e) \<in> set Q \<longrightarrow> e \<le> d + 1"
    using assms(7) by blast
  have c8: "\<forall>x n. x \<in> V \<and> x \<notin> fst ` set Q \<and> isdist idx a n x \<and> int n < maxd \<longrightarrow> nbrs idx x \<subseteq> V"
    using assms(8) by blast
  show ?thesis unfolding bfs_inv_def
    by (intro conjI) (fact assms(1) assms(2) assms(3) assms(6) c4 c5 c7 c8)+
qed

lemma bfs_inv_init: "bfs_inv idx a maxd {a} [(a, 0)] []"
  by (rule bfs_invI) (simp_all add: isdist_def)

lemma bfs_inv_reach:
  assumes inv: "bfs_inv idx a maxd V Q C"
  shows "walk idx n a y \<Longrightarrow> (\<And>x d. (x, d) \<in> set Q \<Longrightarrow> int n \<le> d) \<Longrightarrow> int n \<le> maxd \<Longrightarrow> y \<in> V"
proof (induction n arbitrary: y)
  case 0
  then show ?case using bfs_invD(1)[OF inv] by simp
next
  case (Suc n)
  from Suc.prems(1) obtain c where c: "walk idx n a c" "y \<in> nbrs idx c" by auto
  have "\<And>x d. (x, d) \<in> set Q \<Longrightarrow> int n \<le> d" using Suc.prems(2) by fastforce
  then have cV: "c \<in> V" using Suc.IH[OF c(1)] Suc.prems(3) by simp
  obtain m where m: "m \<le> n" "isdist idx a m c" using walk_isdist[OF c(1)] by blast
  have "c \<notin> fst ` set Q"
  proof
    assume "c \<in> fst ` set Q"
    then obtain d where d: "(c, d) \<in> set Q" by auto
    then have "0 \<le> d" "isdist idx a (nat d) c" using bfs_invD(5)[OF inv] by auto
    then have "nat d = m" using m(2) isdist_unique by blast
    moreover have "int (Suc n) \<le> d" using Suc.prems(2)[OF d] .
    ultimately show False using m(1) by simp
  qed
  moreover have "int m < maxd" using m(1) Suc.prems(3) by simp
  ultimately have "nbrs idx c \<subseteq> V" using bfs_invD(8)[OF inv cV _ m(2)] by blast
  then show ?case using c(2) by blast
qed


lemma fold_bfs_visit_closed:
  "distinct (map fst ps) \<Longrightarrow> dict_keys C \<subseteq> V \<Longrightarrow>
   fold (bfs_visit d) ps (V, Q, C) =
     (V \<union> dict_keys ps,
      Q @ map (\<lambda>(k, v). (k, d + 1)) (filter (\<lambda>(k, v). k \<notin> V) ps),
      C @ map (\<lambda>(k, v). (k, \<lparr>count = v, degree = d + 1\<rparr>)) (filter (\<lambda>(k, v). k \<notin> V) ps))"
proof (induction ps arbitrary: V Q C)
  case Nil
  then show ?case by simp
next
  case (Cons p ps)
  obtain k v where p: "p = (k, v)" by (cases p)
  have dps: "distinct (map fst ps)" and kps: "k \<notin> dict_keys ps"
    using Cons.prems(1) p by (auto simp: dict_keys_def)
  show ?case
  proof (cases "k \<in> V")
    case True
    then have step: "bfs_visit d p (V, Q, C) = (V, Q, C)" using p by (simp add: bfs_visit_def)
    have "V \<union> dict_keys (p # ps) = V \<union> dict_keys ps" using True p by (auto simp: dict_keys_def)
    then show ?thesis using Cons.IH[OF dps Cons.prems(2), of Q] step True p by simp
  next
    case False
    then have kC: "k \<notin> dict_keys C" using Cons.prems(2) by blast
    let ?C = "C @ [(k, \<lparr>count = v, degree = d + 1\<rparr>)]"
    have step: "bfs_visit d p (V, Q, C) = (insert k V, Q @ [(k, d + 1)], ?C)"
      using False kC p by (simp add: bfs_visit_def update_fresh)
    have sub: "dict_keys ?C \<subseteq> insert k V" using Cons.prems(2) by (auto simp: dict_keys_def)
    have filt: "filter (\<lambda>(k', v). k' \<notin> insert k V) ps = filter (\<lambda>(k', v). k' \<notin> V) ps"
      using kps by (intro filter_cong) (force simp: dict_keys_def)+
    have "insert k V \<union> dict_keys ps = V \<union> dict_keys (p # ps)" using p by (auto simp: dict_keys_def)
    then show ?thesis using Cons.IH[OF dps sub, of "Q @ [(k, d + 1)]"] step False p filt by simp
  qed
qed

lemma walk_step: "walk idx n a c \<Longrightarrow> y \<in> nbrs idx c \<Longrightarrow> walk idx (Suc n) a y"
  by auto

lemma bfs_inv_skip:
  assumes inv: "bfs_inv idx a maxd V ((cur, d) # rest) C" and ge: "maxd \<le> d"
  shows "bfs_inv idx a maxd V rest C"
proof (rule bfs_invI)
  show "V = insert a (dict_keys C)" "a \<notin> dict_keys C" "distinct (map fst C)"
    by (rule bfs_invD(1-3)[OF inv])+
  show "sorted (map snd rest)" using bfs_invD(6)[OF inv] by simp
next
  fix x c assume "(x, c) \<in> set C"
  then show "1 \<le> degree c \<and> degree c \<le> maxd \<and> isdist idx a (nat (degree c)) x"
    by (rule bfs_invD(4)[OF inv])
next
  fix x e assume "(x, e) \<in> set rest"
  then have "(x, e) \<in> set ((cur, d) # rest)" by simp
  then show "0 \<le> e \<and> x \<in> V \<and> isdist idx a (nat e) x" by (rule bfs_invD(5)[OF inv])
next
  fix x e y e' assume "(x, e) \<in> set rest" "(y, e') \<in> set rest"
  then have "(x, e) \<in> set ((cur, d) # rest)" "(y, e') \<in> set ((cur, d) # rest)" by simp_all
  then show "e' \<le> e + 1" by (rule bfs_invD(7)[OF inv])
next
  fix x n
  assume h: "x \<in> V" "x \<notin> fst ` set rest" "isdist idx a n x" "int n < maxd"
  have cur: "0 \<le> d \<and> cur \<in> V \<and> isdist idx a (nat d) cur"
    by (rule bfs_invD(5)[OF inv]) simp
  have "x \<noteq> cur"
  proof
    assume "x = cur"
    then have "n = nat d" using h(3) cur isdist_unique by blast
    then show False using h(4) cur ge by simp
  qed
  then have "x \<notin> fst ` set ((cur, d) # rest)" using h(2) by auto
  then show "nbrs idx x \<subseteq> V" using bfs_invD(8)[OF inv h(1) _ h(3,4)] by blast
qed


lemma sorted_map_const: "sorted (map (\<lambda>p. (c::int)) xs)"
  by (induction xs) auto

lemma bfs_inv_expand:
  assumes inv: "bfs_inv idx a maxd V ((cur, d) # rest) C" and lt: "d < maxd"
    and ps: "ps = get_direct_collaborators_raw idx cur"
    and new: "new = filter (\<lambda>(k, v). k \<notin> V) ps"
  shows "bfs_inv idx a maxd (V \<union> dict_keys ps)
           (rest @ map (\<lambda>(k, v). (k, d + 1)) new)
           (C @ map (\<lambda>(k, v). (k, \<lparr>count = v, degree = d + 1\<rparr>)) new)"
proof -
  let ?Qn = "map (\<lambda>(k, v). (k, d + 1)) new"
  let ?Cn = "map (\<lambda>(k, v). (k, \<lparr>count = v, degree = d + 1\<rparr>)) new"
  have N: "dict_keys ps = nbrs idx cur" by (simp add: ps nbrs_def)
  have cur: "0 \<le> d" "cur \<in> V" "isdist idx a (nat d) cur"
    using bfs_invD(5)[OF inv, of cur d] by simp_all
  have V: "V = insert a (dict_keys C)" by (rule bfs_invD(1)[OF inv])
  have keysCn: "dict_keys ?Cn = dict_keys ps - V"
    unfolding new dict_keys_def by force
  have keysQn: "fst ` set ?Qn = dict_keys ps - V"
    unfolding new dict_keys_def by force
  have Qn_mem: "\<And>x e. (x, e) \<in> set ?Qn \<Longrightarrow> e = d + 1 \<and> x \<in> dict_keys ps \<and> x \<notin> V"
    unfolding new dict_keys_def by force
  have Cn_mem: "\<And>x c. (x, c) \<in> set ?Cn \<Longrightarrow> degree c = d + 1 \<and> x \<in> dict_keys ps \<and> x \<notin> V"
    unfolding new dict_keys_def by force
  have rest_ge: "\<And>y e. (y, e) \<in> set rest \<Longrightarrow> d \<le> e"
    using bfs_invD(6)[OF inv] by force
  have rest_le: "e \<le> d + 1" if "(y, e) \<in> set rest" for y e
    using bfs_invD(7)[OF inv, of cur d y e] that by simp
  have fresh: "isdist idx a (nat (d + 1)) x" if x: "x \<in> dict_keys ps" "x \<notin> V" for x
  proof -
    have nd: "nat (d + 1) = Suc (nat d)" using cur(1) by simp
    have w: "walk idx (Suc (nat d)) a x"
      using cur(3) x(1) N unfolding isdist_def by auto
    have "Suc (nat d) \<le> m" if m: "walk idx m a x" for m
    proof (rule ccontr)
      assume "\<not> Suc (nat d) \<le> m"
      then have md: "int m \<le> d" using cur(1) by simp
      have "\<And>y e. (y, e) \<in> set ((cur, d) # rest) \<Longrightarrow> int m \<le> e"
        using md rest_ge by fastforce
      then have "x \<in> V" using bfs_inv_reach[OF inv m] md lt by simp
      then show False using x(2) by simp
    qed
    then show ?thesis unfolding isdist_def nd using w by blast
  qed
  show ?thesis
  proof (rule bfs_invI)
    show "V \<union> dict_keys ps = insert a (dict_keys (C @ ?Cn))"
    proof -
      have "dict_keys (C @ ?Cn) = dict_keys C \<union> (dict_keys ps - V)"
        using keysCn by (simp add: dict_keys_def image_Un)
      then show ?thesis using V by blast
    qed
    show "a \<notin> dict_keys (C @ ?Cn)"
    proof -
      have "dict_keys (C @ ?Cn) = dict_keys C \<union> (dict_keys ps - V)"
        using keysCn by (simp add: dict_keys_def image_Un)
      then show ?thesis using V bfs_invD(2)[OF inv] by blast
    qed
    show "distinct (map fst (C @ ?Cn))"
    proof -
      have "distinct (map fst ps)" unfolding ps by (rule distinct_raw)
      then have dn: "distinct (map fst new)" unfolding new by (rule distinct_map_filter)
      have mf: "map fst ?Cn = map fst new" by (induction new) auto
      have d2: "distinct (map fst ?Cn)" unfolding mf by (rule dn)
      have "dict_keys C \<inter> dict_keys ?Cn = {}" using keysCn V by blast
      then have "set (map fst C) \<inter> set (map fst ?Cn) = {}"
        unfolding dict_keys_def set_map .
      then show ?thesis using bfs_invD(3)[OF inv] d2 by (simp only: map_append distinct_append)
    qed
    show "sorted (map snd (rest @ ?Qn))"
    proof -
      have ms: "map snd ?Qn = map (\<lambda>p. d + 1) new" by (induction new) auto
      have s2: "sorted (map snd ?Qn)" unfolding ms by (rule sorted_map_const)
      have s1: "sorted (map snd rest)" using bfs_invD(6)[OF inv] by simp
      have "\<forall>e \<in> set (map snd rest). \<forall>e' \<in> set (map snd ?Qn). e \<le> e'"
        using rest_le Qn_mem by force
      then show ?thesis using s1 s2 by (simp only: map_append sorted_append)
    qed
  next
    fix x c assume "(x, c) \<in> set (C @ ?Cn)"
    then have "(x, c) \<in> set C \<or> (x, c) \<in> set ?Cn" by (simp only: set_append Un_iff)
    then consider "(x, c) \<in> set C" | "(x, c) \<in> set ?Cn" by blast
    then show "1 \<le> degree c \<and> degree c \<le> maxd \<and> isdist idx a (nat (degree c)) x"
    proof cases
      case 1
      then show ?thesis by (rule bfs_invD(4)[OF inv])
    next
      case 2
      then have "degree c = d + 1" "x \<in> dict_keys ps" "x \<notin> V" using Cn_mem by blast+
      then show ?thesis using fresh[of x] cur(1) lt by simp
    qed
  next
    fix x e assume "(x, e) \<in> set (rest @ ?Qn)"
    then have "(x, e) \<in> set rest \<or> (x, e) \<in> set ?Qn" by (simp only: set_append Un_iff)
    then consider "(x, e) \<in> set rest" | "(x, e) \<in> set ?Qn" by blast
    then show "0 \<le> e \<and> x \<in> V \<union> dict_keys ps \<and> isdist idx a (nat e) x"
    proof cases
      case 1
      then have "(x, e) \<in> set ((cur, d) # rest)" by simp
      then have "0 \<le> e \<and> x \<in> V \<and> isdist idx a (nat e) x" by (rule bfs_invD(5)[OF inv])
      then show ?thesis by simp
    next
      case 2
      then have "e = d + 1" "x \<in> dict_keys ps" "x \<notin> V" using Qn_mem by blast+
      then show ?thesis using fresh[of x] cur(1) by simp
    qed
  next
    fix x e y e' assume "(x, e) \<in> set (rest @ ?Qn)" "(y, e') \<in> set (rest @ ?Qn)"
    then have "(x, e) \<in> set rest \<or> (x, e) \<in> set ?Qn" "(y, e') \<in> set rest \<or> (y, e') \<in> set ?Qn"
      by (simp_all only: set_append Un_iff)
    then have "d \<le> e" "e' \<le> d + 1" using rest_ge rest_le Qn_mem by fastforce+
    then show "e' \<le> e + 1" by simp
  next
    fix x n
    assume h: "x \<in> V \<union> dict_keys ps" "x \<notin> fst ` set (rest @ ?Qn)" "isdist idx a n x" "int n < maxd"
    have "fst ` set (rest @ ?Qn) = fst ` set rest \<union> (dict_keys ps - V)"
      using keysQn by (simp only: set_append image_Un)
    then have xr: "x \<notin> fst ` set rest" and xq: "x \<notin> dict_keys ps - V"
      using h(2) by blast+
    then have xV: "x \<in> V" using h(1) by blast
    show "nbrs idx x \<subseteq> V \<union> dict_keys ps"
    proof (cases "x = cur")
      case True
      then show ?thesis using N by simp
    next
      case False
      then have "x \<notin> fst ` set ((cur, d) # rest)" using xr by auto
      then have "nbrs idx x \<subseteq> V" using bfs_invD(8)[OF inv xV _ h(3,4)] by blast
      then show ?thesis by blast
    qed
  qed
qed


lemma bfs_loop_inv:
  "bfs_inv idx a maxd V Q C \<Longrightarrow> \<exists>V'. bfs_inv idx a maxd V' [] (bfs_loop idx maxd V Q C)"
proof (induction idx maxd V Q C rule: bfs_loop.induct)
  case (1 idx maxd V C)
  then show ?case by auto
next
  case (2 idx maxd V cur d rest C)
  show ?case
  proof (cases "maxd \<le> d")
    case True
    have "bfs_inv idx a maxd V rest C" using bfs_inv_skip[OF "2.prems" True] .
    then show ?thesis using "2.IH"(1)[OF True] True by simp
  next
    case False
    define ps where "ps = get_direct_collaborators_raw idx cur"
    define new where "new = filter (\<lambda>(k, v). k \<notin> V) ps"
    let ?V = "V \<union> dict_keys ps"
    let ?Q = "rest @ map (\<lambda>(k, v). (k, d + 1)) new"
    let ?C = "C @ map (\<lambda>(k, v). (k, \<lparr>count = v, degree = d + 1\<rparr>)) new"
    have sub: "dict_keys C \<subseteq> V" using bfs_invD(1)[OF "2.prems"] by blast
    have fold_eq: "fold (bfs_visit d) (get_direct_collaborators_raw idx cur) (V, rest, C) = (?V, ?Q, ?C)"
      unfolding ps_def new_def by (rule fold_bfs_visit_closed[OF distinct_raw sub])
    have inv': "bfs_inv idx a maxd ?V ?Q ?C"
      using False by (intro bfs_inv_expand[OF "2.prems" _ ps_def new_def]) simp
    have "\<exists>V'. bfs_inv idx a maxd V' [] (bfs_loop idx maxd ?V ?Q ?C)"
      by (rule "2.IH"(2)[OF False fold_eq[symmetric] refl inv'])
    then show ?thesis using False fold_eq by simp
  qed
qed

lemma bfs_final:
  assumes inv: "bfs_inv idx a maxd V [] R"
  shows "dict_keys R = {x. x \<noteq> a \<and> (\<exists>n. int n \<le> maxd \<and> walk idx n a x)}"
proof (intro set_eqI iffI)
  fix x assume "x \<in> dict_keys R"
  then obtain c where c: "(x, c) \<in> set R" by (auto simp: dict_keys_def)
  have p: "1 \<le> degree c \<and> degree c \<le> maxd \<and> isdist idx a (nat (degree c)) x"
    by (rule bfs_invD(4)[OF inv c])
  then have "walk idx (nat (degree c)) a x" "int (nat (degree c)) \<le> maxd"
    by (simp_all add: isdist_def)
  moreover have "x \<noteq> a" using \<open>x \<in> dict_keys R\<close> bfs_invD(2)[OF inv] by blast
  ultimately show "x \<in> {x. x \<noteq> a \<and> (\<exists>n. int n \<le> maxd \<and> walk idx n a x)}" by blast
next
  fix x assume "x \<in> {x. x \<noteq> a \<and> (\<exists>n. int n \<le> maxd \<and> walk idx n a x)}"
  then obtain n where n: "x \<noteq> a" "int n \<le> maxd" "walk idx n a x" by blast
  have "x \<in> V" using bfs_inv_reach[OF inv n(3) _ n(2)] by simp
  then show "x \<in> dict_keys R" using bfs_invD(1)[OF inv] n(1) by simp
qed

lemma bfs_general:
  shows "distinct (map fst (get_connections_bfs idx A d))"
    and "dict_keys (get_connections_bfs idx A d) = {x. x \<noteq> strip A \<and> (\<exists>n. int n \<le> d \<and> walk idx n (strip A) x)}"
    and "\<And>x c. (x, c) \<in> set (get_connections_bfs idx A d) \<Longrightarrow>
           1 \<le> degree c \<and> isdist idx (strip A) (nat (degree c)) x"
proof -
  obtain V where inv: "bfs_inv idx (strip A) d V [] (get_connections_bfs idx A d)"
    using bfs_loop_inv[OF bfs_inv_init[of idx "strip A" d]]
    unfolding get_connections_bfs_def Let_def by blast
  show "distinct (map fst (get_connections_bfs idx A d))" by (rule bfs_invD(3)[OF inv])
  show "dict_keys (get_connections_bfs idx A d) = {x. x \<noteq> strip A \<and> (\<exists>n. int n \<le> d \<and> walk idx n (strip A) x)}"
    by (rule bfs_final[OF inv])
  show "\<And>x c. (x, c) \<in> set (get_connections_bfs idx A d) \<Longrightarrow>
           1 \<le> degree c \<and> isdist idx (strip A) (nat (degree c)) x"
    using bfs_invD(4)[OF inv] by blast
qed

lemma nbrs_trimmed: "strip c = c \<Longrightarrow> y \<in> nbrs idx c \<longleftrightarrow> collab_edge idx c y"
  by (auto simp: nbrs_def dict_keys_raw collab_edge_def)

lemma walk_in_names: "walk idx n a x \<Longrightarrow> x = a \<or> x \<in> artist_names idx"
  using dict_keys_raw_subset by (cases n) (auto simp: nbrs_def)

lemma collab_edge_in_names: "collab_edge idx c y \<Longrightarrow> c \<in> artist_names idx"
  by (auto simp: collab_edge_def artist_names_def)

lemma walk_hops:
  assumes tr: "\<forall>x \<in> artist_names idx. strip x = x" and a: "strip a = a"
  shows "walk idx n a x \<longleftrightarrow> hops idx n a x"
proof (induction n arbitrary: x)
  case 0
  show ?case by simp
next
  case (Suc n)
  show ?case
  proof
    assume "walk idx (Suc n) a x"
    then obtain c where c: "walk idx n a c" "x \<in> nbrs idx c" by auto
    have "strip c = c" using walk_in_names[OF c(1)] tr a by auto
    then have e: "collab_edge idx c x" using c(2) nbrs_trimmed by simp
    then have "c \<in> artist_names idx" by (rule collab_edge_in_names)
    then show "hops idx (Suc n) a x" using c(1) e Suc.IH by auto
  next
    assume "hops idx (Suc n) a x"
    then obtain c where c: "c \<in> artist_names idx" "hops idx n a c" "collab_edge idx c x" by auto
    have "strip c = c" using c(1) tr by simp
    then have "x \<in> nbrs idx c" using c(3) nbrs_trimmed by simp
    then show "walk idx (Suc n) a x" using c(2) Suc.IH by auto
  qed
qed

lemma get_artist_connections_bfs: "get_artist_connections idx A d = get_connections_bfs idx A d"
  by (simp add: get_artist_connections_def bfs_one_eq_direct)

text \<open>
  Claim C1. On a song index whose artist names are whitespace-trimmed (the data model's
  invariant for artist names) and for a trimmed artist name \<open>A\<close>, the dictionary
  returned for degree bound \<open>d\<close> has each key once; its keys are exactly the artists
  other than \<open>A\<close> reachable from \<open>A\<close> within \<open>d\<close> hops of the song-collaboration graph;
  \<open>A\<close> itself is not a key; and the degree recorded for a key is at least 1, is the
  length of some walk from \<open>A\<close> to it and is at most the length of every such walk.
  This holds for the breadth-first search at every \<open>d\<close> (in particular every
  \<open>d \<ge> 1\<close>), and \<open>get_artist_connections\<close> returns the same dictionary.
\<close>

theorem neighbors_within_degree:
  assumes "\<forall>x \<in> artist_names idx. strip x = x" and "strip A = A"
  shows "distinct (map fst (get_artist_connections idx A d))
       \<and> dict_keys (get_artist_connections idx A d)
           = {x. x \<noteq> A \<and> (\<exists>n. int n \<le> d \<and> hops idx n A x)}
       \<and> A \<notin> dict_keys (get_artist_connections idx A d)
       \<and> (\<forall>(x, c) \<in> set (get_artist_connections idx A d).
             1 \<le> degree c \<and> hops idx (nat (degree c)) A x
             \<and> (\<forall>n. hops idx n A x \<longrightarrow> degree c \<le> int n))
       \<and> get_connections_bfs idx A d = get_artist_connections idx A d"
proof -
  note wh = walk_hops[OF assms]
  let ?r = "get_connections_bfs idx A d"
  have 1: "distinct (map fst ?r)" by (rule bfs_general(1))
  have 2: "dict_keys ?r = {x. x \<noteq> A \<and> (\<exists>n. int n \<le> d \<and> hops idx n A x)}"
    using bfs_general(2)[of idx A d] assms(2) wh by simp
  have 3: "A \<notin> dict_keys ?r" using 2 by simp
  have 4: "\<forall>(x, c) \<in> set ?r. 1 \<le> degree c \<and> hops idx (nat (degree c)) A x
             \<and> (\<forall>n. hops idx n A x \<longrightarrow> degree c \<le> int n)"
  proof (intro ballI, clarify)
    fix x c assume "(x, c) \<in> set ?r"
    then have p: "1 \<le> degree c" "isdist idx A (nat (degree c)) x"
      using bfs_general(3)[of x c idx A d] assms(2) by simp_all
    have "hops idx (nat (degree c)) A x" using p(2) wh by (simp add: isdist_def)
    moreover have "\<forall>n. hops idx n A x \<longrightarrow> degree c \<le> int n"
    proof (intro allI impI)
      fix n assume "hops idx n A x"
      then have "nat (degree c) \<le> n" using p(2) wh by (simp add: isdist_def)
      then show "degree c \<le> int n" by simp
    qed
    ultimately show "1 \<le> degree c \<and> hops idx (nat (degree c)) A x
             \<and> (\<forall>n. hops idx n A x \<longrightarrow> degree c \<le> int n)" using p(1) by blast
  qed
  show ?thesis unfolding get_artist_connections_bfs using 1 2 3 4 by blast
qed


theorem neighbors_within_degree_witness:
  "strip ''A'' = ''A''
   \<and> get_artist_connections
         [(''s1'', [''A'', ''B'', ''C'']), (''s2'', [''B'', ''D'']), (''s3'', [''D'', ''E''])] ''A'' 2
       = [(''B'', \<lparr>count = 1, degree = 1\<rparr>), (''C'', \<lparr>count = 1, degree = 1\<rparr>),
          (''D'', \<lparr>count = 1, degree = 2\<rparr>)]
   \<and> {x. x \<noteq> ''A'' \<and> (\<exists>n. int n \<le> 2 \<and>
          hops [(''s1'', [''A'', ''B'', ''C'']), (''s2'', [''B'', ''D'']), (''s3'', [''D'', ''E''])] n ''A'' x)}
       = {''B'', ''C'', ''D''}
   \<and> hops [(''s1'', [''A'', ''B'', ''C'']), (''s2'', [''B'', ''D'']), (''s3'', [''D'', ''E''])] 2 ''A'' ''D''
   \<and> \<not> hops [(''s1'', [''A'', ''B'', ''C'']), (''s2'', [''B'', ''D'']), (''s3'', [''D'', ''E''])] 1 ''A'' ''D''"
proof -
  let ?idx = "[(''s1'', [''A'', ''B'', ''C'']), (''s2'', [''B'', ''D'']), (''s3'', [''D'', ''E''])]"
  let ?r = "get_artist_connections ?idx ''A'' 2"
  have h1: "\<forall>x \<in> artist_names ?idx. strip x = x"
    by (simp add: artist_names_def strip_def isspace_def)
  have h2: "strip ''A'' = ''A''" by (simp add: strip_def isspace_def)
  have ev: "?r = [(''B'', \<lparr>count = 1, degree = 1\<rparr>), (''C'', \<lparr>count = 1, degree = 1\<rparr>),
                  (''D'', \<lparr>count = 1, degree = 2\<rparr>)]"
    by code_simp
  note th = neighbors_within_degree[OF h1 h2, of 2]
  have keys: "dict_keys ?r = {x. x \<noteq> ''A'' \<and> (\<exists>n. int n \<le> 2 \<and> hops ?idx n ''A'' x)}"
    using th by blast
  have "dict_keys ?r = {''B'', ''C'', ''D''}" unfolding ev by (simp add: dict_keys_def)
  then have set_eq: "{x. x \<noteq> ''A'' \<and> (\<exists>n. int n \<le> 2 \<and> hops ?idx n ''A'' x)} = {''B'', ''C'', ''D''}"
    using keys by simp
  have "(''D'', \<lparr>count = 1, degree = 2\<rparr>) \<in> set ?r" unfolding ev by simp
  moreover have "\<forall>(x, c) \<in> set ?r. 1 \<le> degree c \<and> hops ?idx (nat (degree c)) ''A'' x
             \<and> (\<forall>n. hops ?idx n ''A'' x \<longrightarrow> degree c \<le> int n)"
    using th by blast
  ultimately have D: "hops ?idx (nat 2) ''A'' ''D'' \<and> (\<forall>n. hops ?idx n ''A'' ''D'' \<longrightarrow> 2 \<le> int n)"
    by fastforce
  have D1: "hops ?idx 2 ''A'' ''D''" using D by (simp add: numeral_2_eq_2)
  have D2: "\<not> hops ?idx 1 ''A'' ''D''"
  proof
    assume "hops ?idx 1 ''A'' ''D''"
    then have "2 \<le> int 1" using D by blast
    then show False by simp
  qed
  show ?thesis using h2 ev set_eq D1 D2 by blast
qed

end
